theory Spec2Isabelle
  imports Main "HOL-Library.Word"
begin

unbundle bit_operations_syntax

section \<open>OpenSlots: the SAS protocol module (openslots/protocols/sas.py)\<close>

text \<open>
  Python integers are unbounded and are modelled as \<open>int\<close>; the operators
  \<^verbatim>\<open>^\<close>, \<^verbatim>\<open>&\<close>, \<^verbatim>\<open>|\<close>, \<^verbatim>\<open>>>\<close> and \<^verbatim>\<open><<\<close> are \<open>XOR\<close>, \<open>AND\<close>, \<open>OR\<close>,
  \<open>drop_bit\<close> and \<open>push_bit\<close> on \<open>int\<close>. A \<^verbatim>\<open>bytes\<close> object is a list of 8-bit
  words. Every exception the module can raise is a value of \<open>error\<close>, and a
  function that can raise returns \<open>error + 'a\<close>.
\<close>

datatype error = ValueError | OverflowError | IndexError

type_synonym bytes = "8 word list"

datatype byteorder = Little | Big

subsection \<open>Built-ins used by the module\<close>

text \<open>
  \<^verbatim>\<open>int.to_bytes(length, byteorder)\<close>: \<^verbatim>\<open>ValueError\<close> for a negative length,
  \<^verbatim>\<open>OverflowError\<close> for a negative integer and for one that does not fit.
\<close>

primrec le_bytes :: "nat \<Rightarrow> int \<Rightarrow> bytes" where
  "le_bytes 0 n = []"
| "le_bytes (Suc k) n = word_of_int n # le_bytes k (n div 256)"

definition to_bytes :: "int \<Rightarrow> int \<Rightarrow> byteorder \<Rightarrow> error + bytes" where
  "to_bytes n len order =
     (if len < 0 then Inl ValueError
      else if n < 0 then Inl OverflowError
      else if 256 ^ nat len \<le> n then Inl OverflowError
      else Inr (case order of
                  Little \<Rightarrow> le_bytes (nat len) n
                | Big \<Rightarrow> rev (le_bytes (nat len) n)))"

text \<open>
  \<^verbatim>\<open>str(i)\<close> of an integer. \<open>str i\<close> is the string that \<^verbatim>\<open>str(i)\<close> returns when
  it returns: the decimal digits, with a sign when negative. \<open>py_str lim i\<close> is
  the call itself. CPython limits the length of a decimal conversion:
  \<open>lim\<close> is \<^verbatim>\<open>sys.get_int_max_str_digits()\<close>, which is 0 when there is no limit and
  otherwise at least 640 (4300 unless the interpreter is configured otherwise);
  the conversion raises \<^verbatim>\<open>ValueError\<close> when the result is longer than the check
  threshold of 640 characters and the number of digits, sign apart, exceeds a
  limit that is not 0.
\<close>

definition digit_char :: "nat \<Rightarrow> char" where
  "digit_char d = ''0123456789abcdef'' ! d"

fun str_nat :: "nat \<Rightarrow> string" where
  "str_nat n = (if n < 10 then [digit_char n] else str_nat (n div 10) @ [digit_char (n mod 10)])"

declare str_nat.simps [simp del]

definition str :: "int \<Rightarrow> string" where
  "str i = (if i < 0 then CHR ''-'' # str_nat (nat (- i)) else str_nat (nat i))"

definition exceeds_limit :: "nat \<Rightarrow> int \<Rightarrow> bool" where
  "exceeds_limit lim i \<longleftrightarrow>
     640 < length (str i) \<and> 0 < lim \<and> lim < length (str_nat (nat \<bar>i\<bar>))"

definition py_str :: "nat \<Rightarrow> int \<Rightarrow> error + string" where
  "py_str lim i = (if exceeds_limit lim i then Inl ValueError else Inr (str i))"

text \<open>\<^verbatim>\<open>format(i, 'x')\<close>: lower-case hexadecimal digits, no prefix and no padding.\<close>

fun hex_nat :: "nat \<Rightarrow> string" where
  "hex_nat n = (if n < 16 then [digit_char n] else hex_nat (n div 16) @ [digit_char (n mod 16)])"

declare hex_nat.simps [simp del]

definition format_x :: "int \<Rightarrow> string" where
  "format_x i = (if i < 0 then CHR ''-'' # hex_nat (nat (- i)) else hex_nat (nat i))"

text \<open>
  \<^verbatim>\<open>int(s, 16)\<close> and \<^verbatim>\<open>int(s)\<close> on the strings this module passes: digit strings
  produced by \<^verbatim>\<open>str\<close>, \<^verbatim>\<open>format\<close> and \<^verbatim>\<open>%08i\<close>. An empty string and a character
  that is no digit of the base raise \<^verbatim>\<open>ValueError\<close>. (Python also accepts
  surrounding blanks, a sign, underscores and a base prefix; none of them can
  occur in these strings, and the model takes them as invalid.)
\<close>

definition digit_val :: "char \<Rightarrow> nat option" where
  "digit_val c =
     (let k = of_char c :: nat in
      if 48 \<le> k \<and> k \<le> 57 then Some (k - 48)
      else if 97 \<le> k \<and> k \<le> 102 then Some (k - 87)
      else if 65 \<le> k \<and> k \<le> 70 then Some (k - 55)
      else None)"

fun parse_digits :: "nat \<Rightarrow> int \<Rightarrow> string \<Rightarrow> error + int" where
  "parse_digits base acc [] = Inr acc"
| "parse_digits base acc (c # cs) =
     (case digit_val c of
        None \<Rightarrow> Inl ValueError
      | Some d \<Rightarrow> if d < base then parse_digits base (acc * int base + int d) cs
                  else Inl ValueError)"

definition int_of_str :: "string \<Rightarrow> nat \<Rightarrow> error + int" where
  "int_of_str s base = (if s = [] then Inl ValueError else parse_digits base 0 s)"

text \<open>\<^verbatim>\<open>s.rjust(w, '0')\<close> and \<^verbatim>\<open>'%08i' % n\<close>.\<close>

definition rjust :: "string \<Rightarrow> nat \<Rightarrow> char \<Rightarrow> string" where
  "rjust s w c = replicate (w - length s) c @ s"

definition fmt_08i :: "int \<Rightarrow> string" where
  "fmt_08i n =
     (if n < 0 then CHR ''-'' # rjust (str_nat (nat (- n))) 7 CHR ''0''
      else rjust (str_nat (nat n)) 8 CHR ''0'')"

subsection \<open>Useful functions\<close>

text \<open>
  \<^verbatim>\<open>crc(b, seed=0)\<close>. The constants are written in octal in the source:
  \<^verbatim>\<open>0o17\<close> is 15 and \<^verbatim>\<open>0o10201\<close> is 4225. The loop body is \<open>crc_step\<close>, the
  loop \<open>crc_loop\<close>, and the final \<^verbatim>\<open>to_bytes\<close> can raise.
\<close>

definition crc_nibble :: "int \<Rightarrow> int \<Rightarrow> int" where
  "crc_nibble seed x = (let q = (seed XOR x) AND 15 in drop_bit 4 seed XOR (q * 4225))"

definition crc_step :: "int \<Rightarrow> int \<Rightarrow> int" where
  "crc_step seed x = crc_nibble (crc_nibble seed x) (drop_bit 4 x)"

fun crc_loop :: "int list \<Rightarrow> int \<Rightarrow> int" where
  "crc_loop [] seed = seed"
| "crc_loop (x # b) seed = crc_loop b (crc_step seed x)"

definition crc :: "int list \<Rightarrow> int \<Rightarrow> error + bytes" where
  "crc b seed = to_bytes (crc_loop b seed) 2 Little"

text \<open>
  \<^verbatim>\<open>int_to_bcd(i, length=0)\<close>, on an interpreter whose digit limit is \<open>lim\<close>; the
  \<^verbatim>\<open>isinstance\<close> checks hold by typing. Line 42 evaluates \<^verbatim>\<open>str(i)\<close>, then
  \<^verbatim>\<open>int(_, 16)\<close> (a power-of-two base, which has no limit), then \<^verbatim>\<open>to_bytes\<close>; each
  of the three can raise.
\<close>

definition int_to_bcd :: "nat \<Rightarrow> int \<Rightarrow> int \<Rightarrow> error + bytes" where
  "int_to_bcd lim i len =
     (if i < 0 then Inl ValueError
      else if len < 0 then Inl ValueError
      else case py_str lim i of
             Inl e \<Rightarrow> Inl e
           | Inr s \<Rightarrow>
               (case int_of_str s 16 of
                  Inl e \<Rightarrow> Inl e
                | Inr h \<Rightarrow> to_bytes h len Big))"

text \<open>\<^verbatim>\<open>bcd_to_int(x)\<close>; \<^verbatim>\<open>x\<close> is a \<^verbatim>\<open>bytes\<close> object by typing.\<close>

definition bcd_to_int :: "bytes \<Rightarrow> error + int" where
  "bcd_to_int x = int_of_str (foldl (\<lambda>s i. s @ format_x (uint i)) [] x) 16"

subsection \<open>SASMeter\<close>

record SASMeter =
  id_m :: int
  size_m :: int
  value_m :: int
  name :: string
  description :: string

definition SASMeter_init :: "int \<Rightarrow> int \<Rightarrow> SASMeter" where
  "SASMeter_init i sz = \<lparr>id_m = i, size_m = sz, value_m = 0, name = [], description = []\<rparr>"

definition name_set :: "SASMeter \<Rightarrow> string \<Rightarrow> SASMeter" where
  "name_set m s = m\<lparr>name := take 50 s\<rparr>"

text \<open>The \<^verbatim>\<open>value\<close> property: getter \<open>value_m\<close>, setter \<open>value_set\<close>, deleter \<open>value_del\<close>.\<close>

definition value_set :: "SASMeter \<Rightarrow> int \<Rightarrow> SASMeter" where
  "value_set m n = m\<lparr>value_m := (if n > value_m m then n else value_m m)\<rparr>"

definition value_del :: "SASMeter \<Rightarrow> SASMeter" where
  "value_del m = m\<lparr>value_m := 0\<rparr>"

definition clear :: "SASMeter \<Rightarrow> SASMeter" where
  "clear m = value_del m"

definition meter_str :: "nat \<Rightarrow> SASMeter \<Rightarrow> error + string" where
  "meter_str lim m =
     (case py_str lim (value_m m) of
        Inl e \<Rightarrow> Inl e
      | Inr s \<Rightarrow> Inr (rjust s (nat (size_m m * 2)) CHR ''0''))"


text \<open>\<^verbatim>\<open>__iadd__\<close>: \<^verbatim>\<open>self.value += n if n > 0 else 0\<close> reads the property and assigns
  through its setter.\<close>

definition iadd :: "SASMeter \<Rightarrow> int \<Rightarrow> SASMeter" where
  "iadd m n = value_set m (value_m m + (if n > 0 then n else 0))"

text \<open>A caller's sequence of operations on one meter.\<close>

datatype meter_op = Set int | Increment int | Clear

fun apply_op :: "SASMeter \<Rightarrow> meter_op \<Rightarrow> SASMeter" where
  "apply_op m (Set n) = value_set m n"
| "apply_op m (Increment n) = iadd m n"
| "apply_op m Clear = clear m"

definition run_ops :: "SASMeter \<Rightarrow> meter_op list \<Rightarrow> SASMeter" where
  "run_ops m ops = foldl apply_op m ops"

subsection \<open>SASGame\<close>

type_synonym catalog_entry = "int \<times> int \<times> string \<times> string"

definition meters_602 :: "catalog_entry list" where
  "meters_602 =
     [(0, 4, ''coin_in'', ''Total coin in credits''),
      (1, 4, ''coin_out'', ''Total coin out credits'')]"

record SASGame =
  v_id :: int
  v_seq :: int
  catalog :: "catalog_entry list"
  meters :: "string \<rightharpoonup> SASMeter"

definition lstrip :: "string \<Rightarrow> char \<Rightarrow> string" where
  "lstrip s c = dropWhile (\<lambda>x. x = c) s"

definition new_meter :: "catalog_entry \<Rightarrow> SASMeter" where
  "new_meter e =
     (case e of (i, sz, nm, d) \<Rightarrow>
        (name_set (SASMeter_init i sz) (lstrip nm CHR ''_''))\<lparr>description := d\<rparr>)"

definition SASGame_init :: "catalog_entry list \<Rightarrow> SASGame" where
  "SASGame_init ms =
     \<lparr>v_id = 0, v_seq = 0, catalog = ms,
      meters = foldl (\<lambda>d e. let this_m = new_meter e in d(name this_m \<mapsto> this_m)) Map.empty ms\<rparr>"

text \<open>Raising stops the method: \<open>and_then\<close> passes a result on and keeps an error.\<close>

definition and_then :: "error + 'a \<Rightarrow> ('a \<Rightarrow> error + 'b) \<Rightarrow> error + 'b" where
  "and_then r f = (case r of Inl e \<Rightarrow> Inl e | Inr x \<Rightarrow> f x)"

fun map_err :: "('a \<Rightarrow> error + 'b) \<Rightarrow> 'a list \<Rightarrow> error + 'b list" where
  "map_err f [] = Inr []"
| "map_err f (x # xs) =
     and_then (f x) (\<lambda>y. and_then (map_err f xs) (\<lambda>ys. Inr (y # ys)))"

text \<open>
  \<^verbatim>\<open>SE_validation_number\<close>, in the order of the source. \<open>SE_a\<close> is the list \<^verbatim>\<open>a\<close>
  (lines 144-145), \<open>SE_b\<close> the scrambled list \<^verbatim>\<open>b\<close> (147-153), \<open>SE_c\<close> the
  three checksums (155-157), \<open>SE_n\<close> one of the two \<^verbatim>\<open>enumerate\<close> loops
  (161-165), \<open>SE_v\<close> the digits with both check values injected (167-170),
  \<open>SE_render\<close> the second reversal and the string that is returned (171-173).
  An index is checked where the list's length is not fixed by what precedes.
  The decimal conversions of this method get a number below \<open>2^24\<close>
  (\<^verbatim>\<open>%08i\<close>) and values below 16 (\<^verbatim>\<open>str\<close>), far below the check threshold of
  the digit limit, and are written with \<open>fmt_08i\<close> and \<open>str\<close>.
\<close>

definition SE_a :: "SASGame \<Rightarrow> error + int list" where
  "SE_a g =
     and_then (to_bytes (v_seq g) 3 Little) (\<lambda>s.
     and_then (to_bytes (v_id g) 3 Little) (\<lambda>i.
       Inr (map uint s @ map uint i)))"

definition SE_b :: "int list \<Rightarrow> int list" where
  "SE_b a =
     (let b = replicate 6 0;
          b = b[5 := a ! 5 XOR a ! 1];
          b = b[4 := a ! 4 XOR a ! 0];
          b = b[3 := a ! 3 XOR a ! 1];
          b = b[2 := a ! 2 XOR a ! 0];
          b = b[1 := a ! 1];
          b = b[0 := a ! 0]
      in b)"

definition SE_c :: "int list \<Rightarrow> error + bytes" where
  "SE_c b =
     and_then (crc (take 2 b) 0) (\<lambda>c.
     and_then (crc (take 2 (drop 2 b)) 0) (\<lambda>c2.
     and_then (crc (drop 4 b) 0) (\<lambda>c4.
       Inr (c @ c2 @ c4))))"

fun SE_n :: "nat \<Rightarrow> int \<Rightarrow> bytes \<Rightarrow> int" where
  "SE_n i n [] = n"
| "SE_n i n (v # vs) = SE_n (Suc i) (n + push_bit (i * 8) (uint v)) vs"

definition SE_v :: "bytes \<Rightarrow> error + int list" where
  "SE_v c =
     (let n0 = SE_n 0 0 (drop 3 c);
          n1 = SE_n 0 0 (take 3 c)
      in and_then (map_err (\<lambda>x. int_of_str [x] 10) (fmt_08i n0 @ fmt_08i n1)) (\<lambda>v.
         let v = rev v in
         if length v \<le> 7 then Inl IndexError
         else let v = v[7 := v ! 7 OR push_bit 1 (sum_list (take 8 v) mod 5)] in
         if length v \<le> 15 then Inl IndexError
         else let v = v[15 := v ! 15 OR push_bit 1 (sum_list (drop 8 v) mod 5)] in
         Inr v))"

definition SE_injected :: "SASGame \<Rightarrow> error + int list" where
  "SE_injected g = and_then (SE_a g) (\<lambda>a. and_then (SE_c (SE_b a)) SE_v)"

definition SE_render :: "int list \<Rightarrow> string" where
  "SE_render v = (let v = rev v in ''00'' @ concat (map str v))"

definition SE_validation_number :: "SASGame \<Rightarrow> error + string" where
  "SE_validation_number g = and_then (SE_injected g) (\<lambda>v. Inr (SE_render v))"

text \<open>The method reads the object and assigns to none of its attributes: a call
  gives the result and the object as it was.\<close>

definition call_SE_validation_number :: "SASGame \<Rightarrow> (error + string) \<times> SASGame" where
  "call_SE_validation_number g = (SE_validation_number g, g)"

section \<open>The specification's reference definitions\<close>

text \<open>
  The checksum as the specification words it, on a 16-bit accumulator: for each
  byte the low-nibble step uses the byte, the high-nibble step the byte shifted
  right by 4; a step computes \<open>q = (seed XOR slice) AND 0xF\<close> and
  \<open>seed = (seed >> 4) XOR (q * 0x1081)\<close>; the result is the accumulator's two
  bytes, least significant first.
\<close>

definition spec_nibble_step :: "16 word \<Rightarrow> 16 word \<Rightarrow> 16 word" where
  "spec_nibble_step seed sl = (let q = (seed XOR sl) AND 0xF in drop_bit 4 seed XOR (q * 0x1081))"

fun spec_checksum_acc :: "8 word list \<Rightarrow> 16 word \<Rightarrow> 16 word" where
  "spec_checksum_acc [] seed = seed"
| "spec_checksum_acc (x # xs) seed =
     spec_checksum_acc xs (spec_nibble_step (spec_nibble_step seed (ucast x)) (ucast (drop_bit 4 x)))"

definition spec_checksum :: "8 word list \<Rightarrow> 16 word \<Rightarrow> bytes" where
  "spec_checksum bs seed = (let s = spec_checksum_acc bs seed in [ucast s, ucast (drop_bit 8 s)])"

text \<open>
  The packed-decimal codec as the specification words it. \<open>spec_packed n\<close> is the
  decimal digit string of \<open>n\<close> read as a base-16 literal; \<open>spec_be_bytes w n\<close> is \<open>n\<close>
  as \<open>w\<close> big-endian bytes; \<open>spec_decode\<close> formats each byte as exactly two
  lower-case hexadecimal characters, concatenates them and parses base 16.
\<close>

fun spec_packed :: "nat \<Rightarrow> nat" where
  "spec_packed n = (if n < 10 then n else 16 * spec_packed (n div 10) + n mod 10)"

declare spec_packed.simps [simp del]

definition spec_be_bytes :: "nat \<Rightarrow> int \<Rightarrow> bytes" where
  "spec_be_bytes w n = map (\<lambda>k. word_of_int (n div 256 ^ k)) (rev [0..<w])"

definition spec_hex2 :: "8 word \<Rightarrow> string" where
  "spec_hex2 x = [digit_char (unat x div 16), digit_char (unat x mod 16)]"

definition spec_decode :: "bytes \<Rightarrow> error + int" where
  "spec_decode bs = int_of_str (concat (map spec_hex2 bs)) 16"

text \<open>
  The validation-number pipeline as the specification words it, steps 1 to 9:
  the 6-byte buffer \<open>a\<close>, the scrambled buffer \<open>b\<close>, the three checksums \<open>c\<close>,
  the little-endian combination of 3 bytes, the 8-digit zero-padded rendering,
  the injection of the two check values between two reversals, the output.
\<close>

definition spec_le3 :: "int \<Rightarrow> bytes" where
  "spec_le3 n = [word_of_int n, word_of_int (n div 2 ^ 8), word_of_int (n div 2 ^ 16)]"

definition spec_vn_a :: "int \<Rightarrow> int \<Rightarrow> bytes" where
  "spec_vn_a sq ident = spec_le3 sq @ spec_le3 ident"

definition spec_vn_b :: "bytes \<Rightarrow> bytes" where
  "spec_vn_b a = [a ! 0, a ! 1, a ! 2 XOR a ! 0, a ! 3 XOR a ! 1, a ! 4 XOR a ! 0, a ! 5 XOR a ! 1]"

definition spec_vn_c :: "bytes \<Rightarrow> bytes" where
  "spec_vn_c b = spec_checksum [b ! 0, b ! 1] 0 @ spec_checksum [b ! 2, b ! 3] 0 @ spec_checksum [b ! 4, b ! 5] 0"

definition spec_le_combine :: "8 word \<Rightarrow> 8 word \<Rightarrow> 8 word \<Rightarrow> int" where
  "spec_le_combine x y z = uint x + push_bit 8 (uint y) + push_bit 16 (uint z)"

definition spec_digits8 :: "int \<Rightarrow> int list" where
  "spec_digits8 n = map (\<lambda>k. n div 10 ^ k mod 10) [7, 6, 5, 4, 3, 2, 1, 0]"

definition spec_vn_digits :: "bytes \<Rightarrow> int list" where
  "spec_vn_digits c =
     spec_digits8 (spec_le_combine (c ! 3) (c ! 4) (c ! 5)) @ spec_digits8 (spec_le_combine (c ! 0) (c ! 1) (c ! 2))"

definition spec_inject :: "int list \<Rightarrow> int list" where
  "spec_inject v =
     (let check_lo = sum_list (take 8 v) mod 5;
          v = v[7 := v ! 7 OR push_bit 1 check_lo];
          check_hi = sum_list (take 8 (drop 8 v)) mod 5;
          v = v[15 := v ! 15 OR push_bit 1 check_hi]
      in v)"

definition spec_validation_number :: "int \<Rightarrow> int \<Rightarrow> string" where
  "spec_validation_number sq ident =
     ''00'' @ concat (map str (rev (spec_inject (rev (spec_vn_digits (spec_vn_c (spec_vn_b (spec_vn_a sq ident))))))))"

section \<open>SASMeter: the value only grows\<close>

lemma value_set_ge: "value_m m \<le> value_m (value_set m n)"
  by (simp add: value_set_def)

lemma iadd_ge: "value_m m \<le> value_m (iadd m n)"
  by (simp add: iadd_def value_set_def)

lemma apply_op_ge: "op \<noteq> Clear \<Longrightarrow> value_m m \<le> value_m (apply_op m op)"
  by (cases op) (simp_all add: value_set_ge iadd_ge)

lemma foldl_apply_op_ge:
  "Clear \<notin> set ops \<Longrightarrow> value_m m \<le> value_m (foldl apply_op m ops)"
proof (induction ops arbitrary: m)
  case Nil
  show ?case by simp
next
  case (Cons op ops)
  from Cons.prems have "op \<noteq> Clear" and rest: "Clear \<notin> set ops" by auto
  then have "value_m m \<le> value_m (apply_op m op)" by (simp add: apply_op_ge)
  also have "\<dots> \<le> value_m (foldl apply_op (apply_op m op) ops)"
    using rest by (rule Cons.IH)
  finally show ?case by simp
qed

text \<open>
  C4. On every meter: assigning a value that is not strictly greater than the
  current one, and incrementing by a delta that is not positive, leave the meter
  as it is; incrementing by a positive delta adds it to the value; \<open>clear\<close>
  gives the value 0 whatever it was; an operation other than \<open>clear\<close>, and
  a sequence of operations with no \<open>clear\<close> in it, never lower the value. The
  three operations have no raising path in the source, and none in the model.
\<close>

theorem meter_value_monotone:
  "(n \<le> value_m m \<longrightarrow> value_set m n = m) \<and>
   (d \<le> 0 \<longrightarrow> iadd m d = m) \<and>
   (0 < p \<longrightarrow> iadd m p = m\<lparr>value_m := value_m m + p\<rparr>) \<and>
   clear m = m\<lparr>value_m := 0\<rparr> \<and>
   value_m (clear m) = 0 \<and>
   (op \<noteq> Clear \<longrightarrow> value_m m \<le> value_m (apply_op m op)) \<and>
   (Clear \<notin> set ops \<longrightarrow> value_m m \<le> value_m (run_ops m ops))"
  by (simp add: value_set_def iadd_def clear_def value_del_def run_ops_def
      apply_op_ge foldl_apply_op_ge)

theorem meter_value_monotone_witness:
  "value_set ((SASMeter_init 0 4)\<lparr>value_m := 7\<rparr>) 5 = (SASMeter_init 0 4)\<lparr>value_m := 7\<rparr> \<and>
   iadd ((SASMeter_init 0 4)\<lparr>value_m := 7\<rparr>) (- 2) = (SASMeter_init 0 4)\<lparr>value_m := 7\<rparr> \<and>
   iadd ((SASMeter_init 0 4)\<lparr>value_m := 7\<rparr>) 3 = (SASMeter_init 0 4)\<lparr>value_m := 10\<rparr> \<and>
   value_m (clear ((SASMeter_init 0 4)\<lparr>value_m := 7\<rparr>)) = 0 \<and>
   7 \<le> value_m (apply_op ((SASMeter_init 0 4)\<lparr>value_m := 7\<rparr>) (Set 9)) \<and>
   7 \<le> value_m (run_ops ((SASMeter_init 0 4)\<lparr>value_m := 7\<rparr>) [Set 3, Increment 4, Increment (- 1)])"
  using meter_value_monotone [of 5 "(SASMeter_init 0 4)\<lparr>value_m := 7\<rparr>" "- 2" 3 "Set 9"
      "[Set 3, Increment 4, Increment (- 1)]"]
  by (simp add: SASMeter_init_def)

text \<open>
  C5. On a meter whose value is 0, with \<open>0 \<le> d1 \<le> d2\<close>: assigning \<open>d1\<close> then
  \<open>d2\<close> ends with the value \<open>d2\<close>, and assigning \<open>d2\<close> then \<open>d1\<close> ends with
  the value \<open>d2\<close> too; the two orders give the same meter.
\<close>

theorem value_set_either_order:
  assumes "value_m m = 0" and "0 \<le> d1" and "d1 \<le> d2"
  shows "value_m (value_set (value_set m d1) d2) = d2 \<and>
         value_m (value_set (value_set m d2) d1) = d2 \<and>
         value_set (value_set m d1) d2 = value_set (value_set m d2) d1"
  using assms by (simp add: value_set_def)

theorem value_set_either_order_witness:
  "value_m (SASMeter_init 1 4) = 0 \<and> (0::int) \<le> 3 \<and> (3::int) \<le> 8 \<and>
   value_m (value_set (value_set (SASMeter_init 1 4) 3) 8) = 8 \<and>
   value_m (value_set (value_set (SASMeter_init 1 4) 8) 3) = 8"
proof -
  have z: "value_m (SASMeter_init 1 4) = 0" by (simp add: SASMeter_init_def)
  show ?thesis
    using z value_set_either_order [OF z, of 3 8] by simp
qed

section \<open>The checksum\<close>

subsection \<open>The accumulator stays within 16 bits\<close>

lemma crc_nibble_bounds:
  assumes "0 \<le> seed" and "seed < 2 ^ 16"
  shows "0 \<le> crc_nibble seed x \<and> crc_nibble seed x < 2 ^ 16"
proof -
  define q where "q = (seed XOR x) AND 15"
  have q0: "0 \<le> q" by (simp add: q_def)
  have "q \<le> 15" unfolding q_def by (rule AND_upper2) simp
  then have qm: "q * 4225 < 2 ^ 16" by simp
  have qm0: "0 \<le> q * 4225" using q0 by simp
  have d0: "0 \<le> drop_bit 4 seed" using assms by simp
  have "drop_bit 4 seed \<le> seed" using assms(1) by (simp add: drop_bit_eq_div)
  then have d1: "drop_bit 4 seed < 2 ^ 16" using assms(2) by linarith
  have "drop_bit 4 seed XOR q * 4225 < 2 ^ 16"
    using d0 d1 qm by (rule XOR_upper)
  moreover have "0 \<le> drop_bit 4 seed XOR q * 4225" using d0 qm0 by simp
  ultimately show ?thesis by (simp add: crc_nibble_def q_def Let_def)
qed

lemma crc_step_bounds:
  assumes "0 \<le> seed" and "seed < 2 ^ 16"
  shows "0 \<le> crc_step seed x \<and> crc_step seed x < 2 ^ 16"
proof -
  from assms have "0 \<le> crc_nibble seed x \<and> crc_nibble seed x < 2 ^ 16"
    by (rule crc_nibble_bounds)
  then show ?thesis
    unfolding crc_step_def using crc_nibble_bounds by blast
qed

lemma crc_loop_bounds:
  "0 \<le> seed \<Longrightarrow> seed < 2 ^ 16 \<Longrightarrow> 0 \<le> crc_loop b seed \<and> crc_loop b seed < 2 ^ 16"
proof (induction b arbitrary: seed)
  case Nil
  then show ?case by simp
next
  case (Cons x b)
  from Cons.prems have "0 \<le> crc_step seed x \<and> crc_step seed x < 2 ^ 16"
    by (rule crc_step_bounds)
  then show ?case using Cons.IH by simp
qed

lemma to_bytes_2:
  assumes "0 \<le> n" and "n < 2 ^ 16"
  shows "to_bytes n 2 Little = Inr [word_of_int n, word_of_int (n div 256)]"
proof -
  have "le_bytes 2 n = [word_of_int n, word_of_int (n div 256)]"
    by (simp add: numeral_2_eq_2)
  then show ?thesis using assms by (simp add: to_bytes_def)
qed

text \<open>
  C9. With a seed in \<open>[0, 2^16)\<close> the accumulator is in \<open>[0, 2^16)\<close> after
  one nibble step, after one byte, after any number \<open>k\<close> of bytes of the input
  and after the low-nibble step of the byte that follows; so the final
  \<^verbatim>\<open>to_bytes(2, 'little')\<close> does not raise and \<open>crc\<close> returns exactly two bytes.
  The input list is arbitrary: the bound does not need its elements to be 8-bit.
\<close>

theorem crc_total:
  assumes "0 \<le> seed" and "seed < 2 ^ 16"
  shows "0 \<le> crc_nibble seed x \<and> crc_nibble seed x < 2 ^ 16 \<and>
         0 \<le> crc_step seed x \<and> crc_step seed x < 2 ^ 16 \<and>
         0 \<le> crc_loop (take k b) seed \<and> crc_loop (take k b) seed < 2 ^ 16 \<and>
         0 \<le> crc_nibble (crc_loop (take k b) seed) y \<and>
         crc_nibble (crc_loop (take k b) seed) y < 2 ^ 16 \<and>
         (\<exists>lo hi. crc b seed = Inr [lo, hi])"
proof -
  have pre: "0 \<le> crc_loop (take k b) seed \<and> crc_loop (take k b) seed < 2 ^ 16"
    using assms by (rule crc_loop_bounds)
  then have mid: "0 \<le> crc_nibble (crc_loop (take k b) seed) y \<and>
      crc_nibble (crc_loop (take k b) seed) y < 2 ^ 16"
    using crc_nibble_bounds by blast
  have "0 \<le> crc_loop b seed \<and> crc_loop b seed < 2 ^ 16"
    using assms by (rule crc_loop_bounds)
  then have "crc b seed = Inr [word_of_int (crc_loop b seed), word_of_int (crc_loop b seed div 256)]"
    unfolding crc_def using to_bytes_2 by blast
  then have "\<exists>lo hi. crc b seed = Inr [lo, hi]" by blast
  with pre mid crc_nibble_bounds [OF assms] crc_step_bounds [OF assms] show ?thesis
    by blast
qed

theorem crc_total_witness:
  "(0::int) \<le> 7 \<and> (7::int) < 2 ^ 16 \<and>
   0 \<le> crc_nibble 7 1 \<and> crc_nibble 7 1 < 2 ^ 16 \<and>
   0 \<le> crc_loop (take 1 [200, 3]) 7 \<and> crc_loop (take 1 [200, 3]) 7 < 2 ^ 16 \<and>
   (\<exists>lo hi. crc [200, 3] 7 = Inr [lo, hi])"
proof -
  have a: "(0::int) \<le> 7" and b: "(7::int) < 2 ^ 16" by simp_all
  show ?thesis
    using a b crc_total [OF a b, of 1 1 "[200, 3]" 0] by blast
qed

subsection \<open>The checksum of the source is the checksum of the specification\<close>


lemma take_bit_16_uint: "take_bit 16 (uint (s :: 16 word)) = uint s"
  by (rule take_bit_int_eq_self) (use uint_lt2p [of s] in simp_all)

lemma take_bit_8_uint: "take_bit 8 (uint (s :: 8 word)) = uint s"
  by (rule take_bit_int_eq_self) (use uint_lt2p [of s] in simp_all)

lemma take_bit_16_uint8: "take_bit 16 (uint (s :: 8 word)) = uint s"
  by (rule take_bit_int_eq_self) (use uint_lt2p [of s] in simp_all)

lemma uint_drop_bit_16: "uint (drop_bit n (s :: 16 word)) = drop_bit n (uint s)"
  by (simp add: unsigned_drop_bit_eq take_bit_16_uint)

lemma uint_drop_bit_8: "uint (drop_bit n (s :: 8 word)) = drop_bit n (uint s)"
  by (simp add: unsigned_drop_bit_eq take_bit_8_uint)

lemma uint_nibble_step: "uint (spec_nibble_step s w) = crc_nibble (uint s) (uint w)"
proof -
  define q where "q = (s XOR w) AND 0xF"
  have uq: "uint q = (uint s XOR uint w) AND 15"
    by (simp add: q_def uint_and uint_xor)
  have "uint q \<le> 15" unfolding uq by (rule AND_upper2) simp
  then have "uint q * 4225 < 2 ^ 16" by simp
  then have "uint (q * 0x1081) = uint q * 4225"
    by (simp add: uint_word_ariths take_bit_eq_mod)
  then show ?thesis
    by (simp add: spec_nibble_step_def crc_nibble_def Let_def uint_xor uint_drop_bit_16 uq q_def [symmetric])
qed

lemma uint_ucast_8_16: "uint (ucast (x :: 8 word) :: 16 word) = uint x"
  by (simp add: unsigned_ucast_eq take_bit_16_uint8)

lemma uint_checksum_acc: "uint (spec_checksum_acc bs seed) = crc_loop (map uint bs) (uint seed)"
proof (induction bs arbitrary: seed)
  case Nil
  show ?case by simp
next
  case (Cons x bs)
  have "uint (spec_nibble_step (spec_nibble_step seed (ucast x)) (ucast (drop_bit 4 x))) = crc_step (uint seed) (uint x)"
    by (simp add: crc_step_def uint_nibble_step uint_ucast_8_16 uint_drop_bit_8)
  then show ?case by (simp add: Cons.IH)
qed

lemma to_bytes_2_uint: "to_bytes (uint (s :: 16 word)) 2 Little = Inr [ucast s, ucast (drop_bit 8 s)]"
proof -
  have p8: "(2::int) ^ 8 = 256" by simp
  have lt: "uint s < 256 ^ 2" using uint_lt2p [of s] by simp
  have a: "ucast s = (word_of_int (uint s) :: 8 word)" by (rule ucast_eq)
  have "ucast (drop_bit 8 s) = (word_of_int (uint (drop_bit 8 s)) :: 8 word)" by (rule ucast_eq)
  also have "\<dots> = word_of_int (uint s div 256)"
    unfolding uint_drop_bit_16 by (simp only: drop_bit_eq_div p8)
  finally have b: "ucast (drop_bit 8 s) = (word_of_int (uint s div 256) :: 8 word)" .
  have "le_bytes 2 (uint s) = [word_of_int (uint s), word_of_int (uint s div 256)]"
    by (simp add: numeral_2_eq_2)
  then show ?thesis
    using lt unfolding a b by (simp add: to_bytes_def)
qed

lemma crc_checksum: "crc (map uint bs) (uint seed) = Inr (spec_checksum bs seed)"
  by (simp add: crc_def spec_checksum_def Let_def to_bytes_2_uint flip: uint_checksum_acc)

text \<open>
  C3. For every list \<open>bs\<close> of 8-bit values and every 16-bit \<open>seed\<close>, \<open>crc\<close>
  on these values returns, without raising, the two bytes that the
  specification's accumulator \<open>spec_checksum\<close> gives (constant \<open>0x1081\<close>, mask \<open>0xF\<close>,
  low nibble then high nibble, least significant byte first); and the checksum
  of \<open>[0, 0]\<close> with seed 0 is \<open>[0, 0]\<close>.
\<close>

theorem crc_refines_checksum:
  "crc (map uint bs) (uint seed) = Inr (spec_checksum bs seed) \<and>
   crc [0, 0] 0 = Inr [0, 0] \<and> spec_checksum [0, 0] 0 = [0, 0]"
proof -
  have "crc [0, 0] 0 = Inr [0, 0]"
    by (simp add: crc_def crc_step_def crc_nibble_def to_bytes_def numeral_2_eq_2)
  moreover have "spec_checksum [0, 0] 0 = [0, 0]"
    by (simp add: spec_checksum_def spec_nibble_step_def)
  ultimately show ?thesis by (simp add: crc_checksum)
qed

section \<open>The packed-decimal codec\<close>

lemma less_16_cases:
  "d < 16 \<Longrightarrow> d \<in> {0, 1, 2, 3, 4, 5, 6, 7, 8, 9, 10, 11, 12, 13, 14, 15::nat}"
  by simp arith

lemma digit_val_digit_char: "d < 16 \<Longrightarrow> digit_val (digit_char d) = Some d"
  by (drule less_16_cases) (auto simp add: digit_val_def digit_char_def)

lemma parse_digits_snoc:
  "parse_digits b acc xs = Inr a \<Longrightarrow> d < b \<Longrightarrow> d < 16 \<Longrightarrow>
   parse_digits b acc (xs @ [digit_char d]) = Inr (a * int b + int d)"
proof (induction xs arbitrary: acc)
  case Nil
  then show ?case by (simp add: digit_val_digit_char)
next
  case (Cons c cs)
  then show ?case by (auto split: option.splits if_splits)
qed

lemma str_nat_nonempty: "str_nat n \<noteq> []"
  by (subst str_nat.simps) simp

lemma parse_str_nat: "parse_digits 16 0 (str_nat n) = Inr (int (spec_packed n))"
proof (induction n rule: str_nat.induct)
  case (1 n)
  show ?case
  proof (cases "n < 10")
    case True
    then show ?thesis
      by (subst str_nat.simps, subst spec_packed.simps) (simp add: digit_val_digit_char)
  next
    case False
    then have ih: "parse_digits 16 0 (str_nat (n div 10)) = Inr (int (spec_packed (n div 10)))"
      by (rule "1.IH")
    have "parse_digits 16 0 (str_nat (n div 10) @ [digit_char (n mod 10)]) =
        Inr (int (spec_packed (n div 10)) * int 16 + int (n mod 10))"
      by (rule parse_digits_snoc [OF ih]) simp_all
    with False show ?thesis
      by (subst str_nat.simps, subst spec_packed.simps) simp
  qed
qed

lemma int_of_str_str: "0 \<le> i \<Longrightarrow> int_of_str (str i) 16 = Inr (int (spec_packed (nat i)))"
  by (simp add: int_of_str_def str_def str_nat_nonempty parse_str_nat)

lemma length_str_nat:
  "length (str_nat n) = (if n < 10 then 1 else Suc (length (str_nat (n div 10))))"
  by (subst str_nat.simps) simp



lemma le_bytes_map: "0 \<le> n \<Longrightarrow> le_bytes w n = map (\<lambda>k. word_of_int (n div 256 ^ k)) [0..<w]"
proof (induction w arbitrary: n)
  case 0
  show ?case by simp
next
  case (Suc w)
  have "n div 256 div 256 ^ k = n div 256 ^ Suc k" for k
    by (simp add: zdiv_zmult2_eq)
  moreover have "0 \<le> n div 256" using Suc.prems by simp
  ultimately have "le_bytes w (n div 256) = map (\<lambda>k. word_of_int (n div 256 ^ Suc k)) [0..<w]"
    using Suc.IH by simp
  moreover have "[0..<Suc w] = 0 # map Suc [0..<w]"
    by (simp add: upt_conv_Cons map_Suc_upt del: upt_Suc)
  ultimately show ?case by (simp add: comp_def del: upt_Suc)
qed

lemma rev_le_bytes: "0 \<le> n \<Longrightarrow> rev (le_bytes w n) = spec_be_bytes w n"
  by (simp add: le_bytes_map spec_be_bytes_def rev_map)

lemma length_le_bytes: "length (le_bytes w n) = w"
  by (induction w arbitrary: n) simp_all

lemma to_bytes_big:
  "0 \<le> n \<Longrightarrow> 0 \<le> w \<Longrightarrow>
   to_bytes n w Big = (if 256 ^ nat w \<le> n then Inl OverflowError else Inr (spec_be_bytes (nat w) n))"
  by (simp add: to_bytes_def rev_le_bytes)


lemma le_bytes_numeral:
  "le_bytes (numeral k) n = word_of_int n # le_bytes (pred_numeral k) (n div 256)"
  by (simp add: numeral_eq_Suc)

subsection \<open>The digit limit of \<^verbatim>\<open>str\<close>\<close>


lemma short_not_exceeds: "length (str i) \<le> 640 \<Longrightarrow> \<not> exceeds_limit lim i"
  by (simp add: exceeds_limit_def)

lemma no_limit_not_exceeds: "\<not> exceeds_limit 0 i"
  by (simp add: exceeds_limit_def)



lemma int_to_bcd_nonneg:
  assumes "0 \<le> i" and "0 \<le> w"
  shows "int_to_bcd lim i w =
         (if exceeds_limit lim i then Inl ValueError
          else if 256 ^ nat w \<le> int (spec_packed (nat i)) then Inl OverflowError
          else Inr (spec_be_bytes (nat w) (int (spec_packed (nat i)))))"
  using assms by (simp add: int_to_bcd_def py_str_def int_of_str_str to_bytes_big)

subsection \<open>\<^verbatim>\<open>int_to_bcd\<close> and \<^verbatim>\<open>bcd_to_int\<close>\<close>




text \<open>
  C8. \<open>int_to_bcd\<close> of 12 with width 1 is the byte \<open>0x12\<close>, whatever the digit
  limit, and \<open>bcd_to_int\<close> of that byte is 18, as the specification's
  \<open>spec_decode\<close> gives. On the bytes \<open>[0x01, 0x02]\<close> the two
  differ: \<^verbatim>\<open>format(i, 'x')\<close> writes a byte below \<open>0x10\<close> as one character, so
  \<open>bcd_to_int\<close> parses \<^verbatim>\<open>'12'\<close> and returns 18, where two characters per byte
  give \<^verbatim>\<open>'0102'\<close> and 258.
\<close>

theorem bcd_to_int_unpadded:
  "int_to_bcd lim 12 1 = Inr [0x12] \<and> bcd_to_int [0x12] = Inr 18 \<and> spec_decode [0x12] = Inr 18 \<and>
   bcd_to_int [0x01, 0x02] = Inr 18 \<and> spec_decode [0x01, 0x02] = Inr 258"
proof -
  have "str 12 = ''12''" by (simp add: str_def str_nat.simps digit_char_def)
  then have "\<not> exceeds_limit lim 12" by (simp add: short_not_exceeds)
  then have "int_to_bcd lim 12 1 = Inr [0x12]"
    by (simp add: int_to_bcd_nonneg spec_packed.simps spec_be_bytes_def)
  moreover have "bcd_to_int [0x12] = Inr 18" "bcd_to_int [0x01, 0x02] = Inr 18"
    by (simp_all add: bcd_to_int_def format_x_def hex_nat.simps int_of_str_def
        digit_char_def digit_val_def)
  moreover have "spec_decode [0x12] = Inr 18" "spec_decode [0x01, 0x02] = Inr 258"
    by (simp_all add: spec_decode_def spec_hex2_def int_of_str_def digit_char_def digit_val_def)
  ultimately show ?thesis by simp
qed

section \<open>SASMeter: conversion to bytes\<close>

lemma run_ops_nonneg: "0 \<le> value_m m \<Longrightarrow> 0 \<le> value_m (run_ops m ops)"
  unfolding run_ops_def
proof (induction ops arbitrary: m)
  case Nil
  then show ?case by simp
next
  case (Cons op ops)
  from Cons.prems have "0 \<le> value_m (apply_op m op)"
    by (cases op) (simp_all add: value_set_def iadd_def clear_def value_del_def)
  then show ?case using Cons.IH by simp
qed

lemma run_ops_size: "size_m (run_ops m ops) = size_m m"
  unfolding run_ops_def
proof (induction ops arbitrary: m)
  case Nil
  show ?case by simp
next
  case (Cons op ops)
  have "size_m (apply_op m op) = size_m m"
    by (cases op) (simp_all add: value_set_def iadd_def clear_def value_del_def)
  then show ?case using Cons.IH by simp
qed


lemma new_meter_value: "value_m (new_meter e) = 0"
  by (cases e) (simp add: new_meter_def name_set_def SASMeter_init_def)




section \<open>SE_validation_number\<close>

subsection \<open>Counters out of range\<close>

lemma to_bytes_out_of_range:
  "n < 0 \<or> 2 ^ 24 \<le> n \<Longrightarrow> to_bytes n 3 bo = Inl OverflowError"
  by (auto simp add: to_bytes_def)

text \<open>
  C10. When \<open>v_seq\<close> or \<open>v_id\<close> is negative or at least \<open>2^24\<close>, one of the two
  \<^verbatim>\<open>to_bytes(3, byteorder='little')\<close> calls raises \<^verbatim>\<open>OverflowError\<close>, so the list
  \<^verbatim>\<open>a\<close> is never built, the method raises that error, no string is returned,
  and the object is as it was before the call.
\<close>

theorem SE_validation_number_out_of_range:
  assumes "v_seq g < 0 \<or> 2 ^ 24 \<le> v_seq g \<or> v_id g < 0 \<or> 2 ^ 24 \<le> v_id g"
  shows "(to_bytes (v_seq g) 3 Little = Inl OverflowError \<or>
          to_bytes (v_id g) 3 Little = Inl OverflowError) \<and>
         SE_a g = Inl OverflowError \<and>
         SE_validation_number g = Inl OverflowError \<and>
         (\<nexists>s. SE_validation_number g = Inr s) \<and>
         call_SE_validation_number g = (Inl OverflowError, g)"
proof -
  from assms have tb: "to_bytes (v_seq g) 3 Little = Inl OverflowError \<or>
      to_bytes (v_id g) 3 Little = Inl OverflowError"
    using to_bytes_out_of_range by blast
  then have a: "SE_a g = Inl OverflowError"
    by (auto simp add: SE_a_def and_then_def split: sum.splits)
       (auto simp add: to_bytes_def split: if_splits)
  then have "SE_validation_number g = Inl OverflowError"
    by (simp add: SE_validation_number_def SE_injected_def and_then_def)
  with tb a show ?thesis by (simp add: call_SE_validation_number_def)
qed

theorem SE_validation_number_out_of_range_witness:
  "SE_validation_number ((SASGame_init meters_602)\<lparr>v_seq := 2 ^ 24\<rparr>) = Inl OverflowError \<and>
   SE_validation_number ((SASGame_init meters_602)\<lparr>v_id := - 1\<rparr>) = Inl OverflowError \<and>
   call_SE_validation_number ((SASGame_init meters_602)\<lparr>v_id := - 1\<rparr>) =
     (Inl OverflowError, (SASGame_init meters_602)\<lparr>v_id := - 1\<rparr>)"
  using SE_validation_number_out_of_range [of "(SASGame_init meters_602)\<lparr>v_seq := 2 ^ 24\<rparr>"]
    SE_validation_number_out_of_range [of "(SASGame_init meters_602)\<lparr>v_id := - 1\<rparr>"]
  by (simp add: SASGame_init_def)

subsection \<open>Counters in range: the pipeline of the specification\<close>

lemma to_bytes_3:
  assumes "0 \<le> n" and "n < 2 ^ 24"
  shows "to_bytes n 3 Little = Inr (spec_le3 n)"
proof -
  have "n div 256 div 256 = n div 65536" by (simp add: zdiv_zmult2_eq [symmetric])
  then have "le_bytes 3 n = spec_le3 n"
    by (simp add: le_bytes_numeral spec_le3_def)
  then show ?thesis using assms by (simp add: to_bytes_def)
qed

lemma SE_a_in_range:
  assumes "0 \<le> v_seq g" and "v_seq g < 2 ^ 24" and "0 \<le> v_id g" and "v_id g < 2 ^ 24"
  shows "SE_a g = Inr (map uint (spec_vn_a (v_seq g) (v_id g)))"
  using assms by (simp add: SE_a_def and_then_def to_bytes_3 spec_vn_a_def)

lemma list_update_numeral:
  "(x # xs)[numeral k := y] = x # xs[pred_numeral k := y]"
  by (simp add: numeral_eq_Suc)

lemma replicate_6: "replicate 6 x = [x, x, x, x, x, x]"
  by (simp add: numeral_eq_Suc)

lemma SE_b_words:
  "SE_b (map uint [a0, a1, a2, a3, a4, a5]) = map uint (spec_vn_b [a0, a1, a2, a3, a4, a5])"
  by (simp add: SE_b_def spec_vn_b_def replicate_6 list_update_numeral uint_xor)

lemma crc_pair: "crc [uint x, uint y] 0 = Inr (spec_checksum [x, y] 0)"
  using crc_checksum [of "[x, y]" 0] by simp

lemma SE_c_words:
  "SE_c (map uint [b0, b1, b2, b3, b4, b5]) = Inr (spec_vn_c [b0, b1, b2, b3, b4, b5])"
  by (simp add: SE_c_def spec_vn_c_def and_then_def crc_pair)


lemma digit_char_0: "digit_char 0 = CHR ''0''"
  by (simp add: digit_char_def)

lemma rjust_str_nat_Suc:
  assumes "0 < k"
  shows "rjust (str_nat n) (Suc k) CHR ''0'' =
         rjust (str_nat (n div 10)) k CHR ''0'' @ [digit_char (n mod 10)]"
proof (cases "n < 10")
  case True
  then have a: "str_nat n = [digit_char n]"
    by (subst str_nat.simps) simp
  have b: "str_nat 0 = [CHR ''0'']"
    by (subst str_nat.simps) (simp add: digit_char_0)
  have "replicate (k - Suc 0) CHR ''0'' @ [CHR ''0''] = replicate k CHR ''0''"
    using assms by (cases k) (simp_all add: replicate_append_same)
  with True show ?thesis by (simp add: a b rjust_def)
next
  case False
  then have a: "str_nat n = str_nat (n div 10) @ [digit_char (n mod 10)]"
    by (subst str_nat.simps) simp
  show ?thesis by (simp add: a rjust_def)
qed

lemma rjust_str_nat:
  "0 < k \<Longrightarrow> n < 10 ^ k \<Longrightarrow>
   rjust (str_nat n) k CHR ''0'' = map (\<lambda>j. digit_char (n div 10 ^ j mod 10)) (rev [0..<k])"
proof (induction k arbitrary: n)
  case 0
  then show ?case by simp
next
  case (Suc k)
  show ?case
  proof (cases "k = 0")
    case True
    with Suc.prems have "n < 10" by simp
    then have "str_nat n = [digit_char n]" by (subst str_nat.simps) simp
    with True \<open>n < 10\<close> show ?thesis by (simp add: rjust_def)
  next
    case False
    then have k: "0 < k" by simp
    from Suc.prems have "n div 10 < 10 ^ k" by (simp add: less_mult_imp_div_less mult.commute)
    with k have ih: "rjust (str_nat (n div 10)) k CHR ''0'' =
        map (\<lambda>j. digit_char (n div 10 div 10 ^ j mod 10)) (rev [0..<k])"
      by (rule Suc.IH)
    have d: "n div 10 div 10 ^ j = n div 10 ^ Suc j" for j
      by (simp add: div_mult2_eq)
    have u: "[0..<Suc k] = 0 # map Suc [0..<k]"
      by (simp add: upt_conv_Cons map_Suc_upt del: upt_Suc)
    show ?thesis
      unfolding rjust_str_nat_Suc [OF k] ih u
      by (simp add: rev_map d comp_def)
  qed
qed

lemma int_of_str_digit: "d < 10 \<Longrightarrow> int_of_str [digit_char d] 10 = Inr (int d)"
  by (simp add: int_of_str_def digit_val_digit_char)

lemma map_err_digits:
  "(\<forall>j \<in> set js. d j < 10) \<Longrightarrow>
   map_err (\<lambda>x. int_of_str [x] 10) (map (\<lambda>j. digit_char (d j)) js) = Inr (map (\<lambda>j. int (d j)) js)"
  by (induction js) (simp_all add: and_then_def int_of_str_digit)

lemma map_err_append:
  "map_err f xs = Inr a \<Longrightarrow> map_err f ys = Inr b \<Longrightarrow> map_err f (xs @ ys) = Inr (a @ b)"
  by (induction xs arbitrary: a) (auto simp add: and_then_def split: sum.splits)

lemma rev_upt_8: "rev [0..<8] = [7, 6, 5, 4, 3, 2, 1, 0]"
  by (simp add: upt_conv_Cons numeral_eq_Suc)

lemma parse_fmt_08i:
  assumes "0 \<le> n" and "n < 10 ^ 8"
  shows "map_err (\<lambda>x. int_of_str [x] 10) (fmt_08i n) = Inr (spec_digits8 n)"
proof -
  from assms have "nat n < 10 ^ 8" by (simp add: nat_less_iff)
  then have "rjust (str_nat (nat n)) 8 CHR ''0'' =
      map (\<lambda>j. digit_char (nat n div 10 ^ j mod 10)) (rev [0..<8])"
    by (intro rjust_str_nat) simp_all
  then have "map_err (\<lambda>x. int_of_str [x] 10) (fmt_08i n) =
      Inr (map (\<lambda>j. int (nat n div 10 ^ j mod 10)) (rev [0..<8]))"
    using assms(1) by (simp add: fmt_08i_def map_err_digits)
  moreover have "int (nat n div 10 ^ j mod 10) = n div 10 ^ j mod 10" for j
    using assms(1) by (simp add: zmod_int zdiv_int)
  ultimately show ?thesis
    by (simp add: spec_digits8_def rev_upt_8)
qed


lemma le_combine_bounds: "0 \<le> spec_le_combine x y z \<and> spec_le_combine x y z < 2 ^ 24"
proof -
  have "uint x < 256" "uint y < 256" "uint z < 256"
    using uint_lt2p [of x] uint_lt2p [of y] uint_lt2p [of z] by simp_all
  moreover have "0 \<le> uint x" "0 \<le> uint y" "0 \<le> uint z" by simp_all
  ultimately show ?thesis by (simp add: spec_le_combine_def push_bit_eq_mult)
qed

lemma SE_n_3: "SE_n 0 0 [x, y, z] = spec_le_combine x y z"
  by (simp add: spec_le_combine_def)

lemma length_digits8: "length (spec_digits8 n) = 8"
  by (simp add: spec_digits8_def)

lemma length_vn_digits: "length (spec_vn_digits c) = 16"
  by (simp add: spec_vn_digits_def length_digits8)

lemma SE_tail:
  assumes "length w = 16"
  shows "(if length w \<le> 7 then Inl IndexError
          else let v = w[7 := w ! 7 OR push_bit 1 (sum_list (take 8 w) mod 5)] in
          if length v \<le> 15 then Inl IndexError
          else let v = v[15 := v ! 15 OR push_bit 1 (sum_list (drop 8 v) mod 5)] in
          Inr v) = Inr (spec_inject w)"
  using assms by (simp add: spec_inject_def Let_def)

lemma SE_v_words:
  "SE_v [c0, c1, c2, c3, c4, c5] = Inr (spec_inject (rev (spec_vn_digits [c0, c1, c2, c3, c4, c5])))"
proof -
  have lt: "(2::int) ^ 24 < 10 ^ 8" by simp
  have p0: "map_err (\<lambda>x. int_of_str [x] 10) (fmt_08i (spec_le_combine c3 c4 c5)) =
      Inr (spec_digits8 (spec_le_combine c3 c4 c5))"
    using le_combine_bounds [of c3 c4 c5] lt by (intro parse_fmt_08i) linarith+
  have p1: "map_err (\<lambda>x. int_of_str [x] 10) (fmt_08i (spec_le_combine c0 c1 c2)) =
      Inr (spec_digits8 (spec_le_combine c0 c1 c2))"
    using le_combine_bounds [of c0 c1 c2] lt by (intro parse_fmt_08i) linarith+
  have p: "map_err (\<lambda>x. int_of_str [x] 10)
      (fmt_08i (spec_le_combine c3 c4 c5) @ fmt_08i (spec_le_combine c0 c1 c2)) =
      Inr (spec_vn_digits [c0, c1, c2, c3, c4, c5])"
    using map_err_append [OF p0 p1] by (simp add: spec_vn_digits_def)
  have len: "length (rev (spec_vn_digits [c0, c1, c2, c3, c4, c5])) = 16"
    by (simp add: length_vn_digits)
  have n0: "SE_n 0 0 (drop 3 [c0, c1, c2, c3, c4, c5]) = spec_le_combine c3 c4 c5"
    and n1: "SE_n 0 0 (take 3 [c0, c1, c2, c3, c4, c5]) = spec_le_combine c0 c1 c2"
    by (simp_all add: spec_le_combine_def)
  have "SE_v [c0, c1, c2, c3, c4, c5] =
      (let v = rev (spec_vn_digits [c0, c1, c2, c3, c4, c5]) in
       if length v \<le> 7 then Inl IndexError
       else let v = v[7 := v ! 7 OR push_bit 1 (sum_list (take 8 v) mod 5)] in
       if length v \<le> 15 then Inl IndexError
       else let v = v[15 := v ! 15 OR push_bit 1 (sum_list (drop 8 v) mod 5)] in
       Inr v)"
    unfolding SE_v_def n0 n1 by (simp only: Let_def p and_then_def sum.case)
  also have "\<dots> = Inr (spec_inject (rev (spec_vn_digits [c0, c1, c2, c3, c4, c5])))"
    using SE_tail [OF len] by (simp only: Let_def)
  finally show ?thesis .
qed

lemma vn_c_list: "\<exists>c0 c1 c2 c3 c4 c5. spec_vn_c b = [c0, c1, c2, c3, c4, c5]"
  by (simp add: spec_vn_c_def spec_checksum_def Let_def)

lemma SE_injected_in_range:
  assumes "0 \<le> v_seq g" and "v_seq g < 2 ^ 24" and "0 \<le> v_id g" and "v_id g < 2 ^ 24"
  shows "SE_injected g =
         Inr (spec_inject (rev (spec_vn_digits (spec_vn_c (spec_vn_b (spec_vn_a (v_seq g) (v_id g)))))))"
proof -
  obtain a0 a1 a2 a3 a4 a5 where a: "spec_vn_a (v_seq g) (v_id g) = [a0, a1, a2, a3, a4, a5]"
    by (simp add: spec_vn_a_def spec_le3_def)
  obtain b0 b1 b2 b3 b4 b5 where b: "spec_vn_b [a0, a1, a2, a3, a4, a5] = [b0, b1, b2, b3, b4, b5]"
    by (simp add: spec_vn_b_def)
  obtain c0 c1 c2 c3 c4 c5 where c: "spec_vn_c [b0, b1, b2, b3, b4, b5] = [c0, c1, c2, c3, c4, c5]"
    using vn_c_list by blast
  have "SE_a g = Inr (map uint [a0, a1, a2, a3, a4, a5])"
    using assms by (simp only: SE_a_in_range a)
  moreover have "SE_b (map uint [a0, a1, a2, a3, a4, a5]) = map uint [b0, b1, b2, b3, b4, b5]"
    by (simp only: SE_b_words b)
  moreover have "SE_c (map uint [b0, b1, b2, b3, b4, b5]) = Inr [c0, c1, c2, c3, c4, c5]"
    by (simp only: SE_c_words c)
  ultimately have "SE_injected g = SE_v [c0, c1, c2, c3, c4, c5]"
    by (simp add: SE_injected_def and_then_def)
  then show ?thesis by (simp only: SE_v_words a b c)
qed

text \<open>
  C1. With \<open>v_seq = sq\<close> and \<open>v_id = ident\<close>, both in \<open>[0, 2^24)\<close>, the method
  returns, without raising, exactly the string of the specification's pipeline
  \<open>spec_validation_number sq ident\<close>: 3 little-endian bytes each into \<open>a\<close>, the XOR
  wiring into \<open>b\<close>, three checksums with seed 0 into \<open>c\<close>, \<open>n0\<close> from
  \<open>c[3..5]\<close> and \<open>n1\<close> from \<open>c[0..2]\<close>, two 8-digit renderings, reversal, the two
  check values ORed into positions 7 and 15, reversal, and the prefix \<^verbatim>\<open>00\<close>.
\<close>

theorem SE_validation_number_refines:
  assumes "v_seq g = sq" and "v_id g = ident"
    and "0 \<le> sq" and "sq < 2 ^ 24" and "0 \<le> ident" and "ident < 2 ^ 24"
  shows "SE_validation_number g = Inr (spec_validation_number sq ident)"
proof -
  have "SE_injected g = Inr (spec_inject (rev (spec_vn_digits (spec_vn_c (spec_vn_b (spec_vn_a sq ident))))))"
    using SE_injected_in_range [of g] assms by simp
  then show ?thesis
    by (simp add: SE_validation_number_def SE_render_def and_then_def spec_validation_number_def)
qed

text \<open>The scenario \<open>seq = 1\<close>, \<open>id = 1\<close>, stage by stage.\<close>

lemma example_vn_a: "spec_vn_a 1 1 = [1, 0, 0, 1, 0, 0]"
  by (simp add: spec_vn_a_def spec_le3_def)

lemma example_vn_b: "spec_vn_b [1, 0, 0, 1, 0, 0] = [1, 0, 1, 1, 1, 0]"
  by (simp add: spec_vn_b_def)

lemma example_checksum: "spec_checksum [1, 0] 0 = [216, 25]" "spec_checksum [1, 1] 0 = [81, 8]"
  by (simp_all add: spec_checksum_def spec_nibble_step_def)

lemma example_vn_c: "spec_vn_c [1, 0, 1, 1, 1, 0] = [216, 25, 81, 8, 216, 25]"
  by (simp add: spec_vn_c_def example_checksum)

lemma example_vn_digits:
  "spec_vn_digits [216, 25, 81, 8, 216, 25] = [0, 1, 6, 9, 3, 7, 0, 4, 0, 5, 3, 1, 5, 0, 3, 2]"
  by (simp add: spec_vn_digits_def spec_le_combine_def spec_digits8_def)

lemma example_inject:
  "spec_inject [2, 3, 0, 5, 1, 3, 5, 0, 4, 0, 7, 3, 9, 6, 1, 0] =
   [2, 3, 0, 5, 1, 3, 5, 8, 4, 0, 7, 3, 9, 6, 1, 0]"
  by (simp add: spec_inject_def list_update_numeral)

lemma str_digits:
  "str 0 = ''0''" "str 1 = ''1''" "str 2 = ''2''" "str 3 = ''3''" "str 4 = ''4''"
  "str 5 = ''5''" "str 6 = ''6''" "str 7 = ''7''" "str 8 = ''8''" "str 9 = ''9''"
  "str 13 = ''13''"
  by (simp_all add: str_def str_nat.simps digit_char_def)

lemma example_validation_number: "spec_validation_number 1 1 = ''000169370485315032''"
  by (simp add: spec_validation_number_def example_vn_a example_vn_b example_vn_c example_vn_digits
      example_inject str_digits)

lemma example_SE_injected:
  "SE_injected ((SASGame_init meters_602)\<lparr>v_seq := 1, v_id := 1\<rparr>) =
   Inr [2, 3, 0, 5, 1, 3, 5, 8, 4, 0, 7, 3, 9, 6, 1, 0]"
proof -
  have "SE_injected ((SASGame_init meters_602)\<lparr>v_seq := 1, v_id := 1\<rparr>) =
      Inr (spec_inject (rev (spec_vn_digits (spec_vn_c (spec_vn_b (spec_vn_a 1 1))))))"
    using SE_injected_in_range [of "(SASGame_init meters_602)\<lparr>v_seq := 1, v_id := 1\<rparr>"]
    by simp
  then show ?thesis
    by (simp add: example_vn_a example_vn_b example_vn_c example_vn_digits example_inject)
qed

theorem SE_validation_number_refines_witness:
  "SE_validation_number ((SASGame_init meters_602)\<lparr>v_seq := 1, v_id := 1\<rparr>) =
   Inr ''000169370485315032''"
  using SE_validation_number_refines
    [of "(SASGame_init meters_602)\<lparr>v_seq := 1, v_id := 1\<rparr>" 1 1]
  by (simp add: example_validation_number)


subsection \<open>The length of the string\<close>

lemma length_str_pos: "0 < length (str x)"
  by (simp add: str_def str_nat_nonempty)

lemma length_str_digit: "0 \<le> x \<Longrightarrow> x \<le> 9 \<Longrightarrow> length (str x) = 1"
  by (simp add: str_def length_str_nat)

lemma length_str_big: "9 < x \<Longrightarrow> 2 \<le> length (str x)"
proof -
  assume "9 < x"
  then have "\<not> nat x < 10" by simp
  then have "length (str_nat (nat x)) = Suc (length (str_nat (nat x div 10)))"
    by (subst length_str_nat) simp
  moreover have "0 < length (str_nat (nat x div 10))" using str_nat_nonempty by simp
  ultimately have "2 \<le> length (str_nat (nat x))" by linarith
  then show ?thesis using \<open>9 < x\<close> by (simp add: str_def)
qed

lemma length_concat_str_digits:
  "(\<forall>x \<in> set v. 0 \<le> x \<and> x \<le> 9) \<Longrightarrow> length (concat (map str v)) = length v"
  by (induction v) (simp_all add: length_str_digit)

lemma length_concat_str_ge: "length v \<le> length (concat (map str v))"
proof (induction v)
  case Nil
  show ?case by simp
next
  case (Cons x v)
  then show ?case using length_str_pos [of x] by (simp del: length_greater_0_conv)
qed

lemma length_concat_str_gt:
  "x \<in> set v \<Longrightarrow> 2 \<le> length (str x) \<Longrightarrow> length v < length (concat (map str v))"
proof (induction v)
  case Nil
  then show ?case by simp
next
  case (Cons y v)
  show ?case
  proof (cases "x = y")
    case True
    with Cons.prems(2) length_concat_str_ge [of v] show ?thesis by simp
  next
    case False
    with Cons.prems have "x \<in> set v" by simp
    then have "length v < length (concat (map str v))" using Cons.prems(2) by (rule Cons.IH)
    then show ?thesis using length_str_pos [of y] by (simp del: length_greater_0_conv)
  qed
qed

lemma SE_render_overflow:
  assumes "length w = 16" and "9 < w ! 7 \<or> 9 < w ! 15"
  shows "take 2 (SE_render w) = ''00'' \<and> 18 < length (SE_render w)"
proof -
  have "w ! 7 \<in> set w" "w ! 15 \<in> set w"
    using assms(1) by (simp_all add: nth_mem)
  with assms(2) obtain x where x: "x \<in> set w" "9 < x" by blast
  then have "x \<in> set (rev w)" "2 \<le> length (str x)" by (simp_all add: length_str_big)
  then have "length (rev w) < length (concat (map str (rev w)))" by (rule length_concat_str_gt)
  then show ?thesis using assms(1) by (simp add: SE_render_def)
qed

lemma digits8_range: "x \<in> set (spec_digits8 n) \<Longrightarrow> 0 \<le> x \<and> x \<le> 9"
proof -
  have "0 \<le> m mod 10 \<and> m mod 10 \<le> 9" for m :: int
    using pos_mod_bound [of 10 m] pos_mod_sign [of 10 m] by simp
  moreover assume "x \<in> set (spec_digits8 n)"
  then have "x \<in> (\<lambda>k. n div 10 ^ k mod 10) ` set [7, 6, 5, 4, 3, 2, 1, 0]"
    unfolding spec_digits8_def by (simp only: set_map)
  then obtain k where "x = n div 10 ^ k mod 10" by blast
  ultimately show ?thesis by simp
qed

lemma vn_digits_range: "x \<in> set (spec_vn_digits c) \<Longrightarrow> 0 \<le> x \<and> x \<le> 9"
  unfolding spec_vn_digits_def using digits8_range by auto

lemma inject_nth:
  assumes "length w = 16"
  shows "length (spec_inject w) = 16"
    and "i < 16 \<Longrightarrow> i \<noteq> 7 \<Longrightarrow> i \<noteq> 15 \<Longrightarrow> spec_inject w ! i = w ! i"
    and "spec_inject w ! 7 = w ! 7 OR push_bit 1 (sum_list (take 8 w) mod 5)"
    and "spec_inject w ! 15 = w ! 15 OR push_bit 1 (sum_list (drop 8 w) mod 5)"
  using assms by (simp_all add: spec_inject_def Let_def)

lemma inject_nonneg:
  assumes "length w = 16" and "\<forall>x \<in> set w. 0 \<le> x"
  shows "\<forall>x \<in> set (spec_inject w). 0 \<le> x"
proof -
  have "0 \<le> spec_inject w ! i" if "i < 16" for i
  proof -
    have w: "0 \<le> w ! j" if "j < 16" for j using assms that by simp
    consider "i = 7" | "i = 15" | "i \<noteq> 7" "i \<noteq> 15" by blast
    then show ?thesis
    proof cases
      case 1
      then show ?thesis by (simp add: inject_nth(3) [OF assms(1)] w)
    next
      case 2
      then show ?thesis by (simp add: inject_nth(4) [OF assms(1)] w)
    next
      case 3
      with that show ?thesis by (simp add: inject_nth(2) [OF assms(1)] w)
    qed
  qed
  then show ?thesis
    by (simp add: all_set_conv_all_nth inject_nth(1) [OF assms(1)])
qed

lemma inject_digits:
  assumes "length w = 16" and "\<forall>x \<in> set w. 0 \<le> x \<and> x \<le> 9"
    and "spec_inject w ! 7 \<le> 9" and "spec_inject w ! 15 \<le> 9"
  shows "\<forall>x \<in> set (spec_inject w). 0 \<le> x \<and> x \<le> 9"
proof -
  have "spec_inject w ! i \<le> 9" if "i < 16" for i
  proof -
    have w: "w ! j \<le> 9" if "j < 16" for j using assms(1,2) that by simp
    consider "i = 7" | "i = 15" | "i \<noteq> 7" "i \<noteq> 15" by blast
    then show ?thesis
    proof cases
      case 1
      then show ?thesis using assms(3) by simp
    next
      case 2
      then show ?thesis using assms(4) by simp
    next
      case 3
      with that show ?thesis by (simp add: inject_nth(2) [OF assms(1)] w)
    qed
  qed
  moreover have "\<forall>x \<in> set (spec_inject w). 0 \<le> x"
    using assms(1,2) by (intro inject_nonneg) auto
  ultimately show ?thesis
    by (simp add: all_set_conv_all_nth inject_nth(1) [OF assms(1)])
qed

lemma SE_render_digits:
  assumes "length v = 16" and "\<forall>x \<in> set v. 0 \<le> x \<and> x \<le> 9"
  shows "take 2 (SE_render v) = ''00'' \<and> length (SE_render v) = 18"
proof -
  have "length (concat (map str (rev v))) = length (rev v)"
    using assms(2) by (intro length_concat_str_digits) simp
  then show ?thesis using assms(1) by (simp add: SE_render_def)
qed

lemma or_check_le_9:
  assumes "d = 0 \<or> d = 1" and "0 \<le> k" and "k < 5"
  shows "d OR push_bit 1 k \<le> (9::int)"
proof -
  from assms(2,3) have "k = 0 \<or> k = 1 \<or> k = 2 \<or> k = 3 \<or> k = 4" by arith
  with assms(1) show ?thesis by (elim disjE) simp_all
qed

lemma leading_digit:
  assumes "0 \<le> n" and "n < 2 ^ 24"
  shows "n div 10 ^ 7 mod 10 = 0 \<or> n div 10 ^ 7 mod 10 = (1::int)"
proof -
  from assms have "0 \<le> n div 10 ^ 7" and "n div 10 ^ 7 \<le> 1" by simp_all
  then show ?thesis by auto
qed

lemma mod_5_range: "0 \<le> s mod 5 \<and> s mod 5 < (5::int)"
  by simp

lemma inject_rev_vn_digits_le_9:
  "spec_inject (rev (spec_vn_digits c)) ! 7 \<le> 9 \<and> spec_inject (rev (spec_vn_digits c)) ! 15 \<le> 9"
proof -
  let ?w = "rev (spec_vn_digits c)"
  have len: "length ?w = 16" by (simp add: length_vn_digits)
  have "?w ! 7 = spec_vn_digits c ! 8" "?w ! 15 = spec_vn_digits c ! 0"
    by (simp_all add: rev_nth length_vn_digits)
  then have w7: "?w ! 7 = spec_le_combine (c ! 0) (c ! 1) (c ! 2) div 10 ^ 7 mod 10"
    and w15: "?w ! 15 = spec_le_combine (c ! 3) (c ! 4) (c ! 5) div 10 ^ 7 mod 10"
    by (simp_all add: spec_vn_digits_def spec_digits8_def)
  have d7: "?w ! 7 = 0 \<or> ?w ! 7 = 1"
    unfolding w7 using le_combine_bounds by (intro leading_digit) simp_all
  have d15: "?w ! 15 = 0 \<or> ?w ! 15 = 1"
    unfolding w15 using le_combine_bounds by (intro leading_digit) simp_all
  have "spec_inject ?w ! 7 \<le> 9"
    unfolding inject_nth(3) [OF len] using d7 mod_5_range by (intro or_check_le_9) simp_all
  moreover have "spec_inject ?w ! 15 \<le> 9"
    unfolding inject_nth(4) [OF len] using d15 mod_5_range by (intro or_check_le_9) simp_all
  ultimately show ?thesis ..
qed

text \<open>
  With both counters in range the two positions hold the leading digit of an
  8-digit rendering of a number below \<open>2^24\<close>, which is 0 or 1, and the check
  value is one of 0, 2, 4, 6, 8: the injected values are at most \<open>1 OR 8 = 9\<close>.
  So the method itself never renders a value above 9, and its string always
  has 18 characters.
\<close>

lemma SE_injected_no_overflow:
  assumes "0 \<le> v_seq g" and "v_seq g < 2 ^ 24" and "0 \<le> v_id g" and "v_id g < 2 ^ 24"
  shows "\<exists>v. SE_injected g = Inr v \<and> v ! 7 \<le> 9 \<and> v ! 15 \<le> 9 \<and> length (SE_render v) = 18"
proof -
  let ?w = "rev (spec_vn_digits (spec_vn_c (spec_vn_b (spec_vn_a (v_seq g) (v_id g)))))"
  have inj: "SE_injected g = Inr (spec_inject ?w)"
    using assms by (rule SE_injected_in_range)
  have len: "length ?w = 16" by (simp add: length_vn_digits)
  have dig: "\<forall>x \<in> set ?w. 0 \<le> x \<and> x \<le> 9"
    using vn_digits_range by simp
  have le: "spec_inject ?w ! 7 \<le> 9 \<and> spec_inject ?w ! 15 \<le> 9"
    by (rule inject_rev_vn_digits_le_9)
  then have "\<forall>x \<in> set (spec_inject ?w). 0 \<le> x \<and> x \<le> 9"
    using len dig by (intro inject_digits) simp_all
  then have "length (SE_render (spec_inject ?w)) = 18"
    using inject_nth(1) [OF len] SE_render_digits by blast
  with inj le show ?thesis by blast
qed

text \<open>
  C2. With both counters in \<open>[0, 2^24)\<close> the method returns the rendering of a
  list \<open>v\<close> of 16 values, and when neither injected value (\<open>v ! 7\<close> and \<open>v ! 15\<close>,
  the positions after the first reversal) is above 9 the string starts with
  \<^verbatim>\<open>00\<close> and has exactly 18 characters. The rendering of a list of 16 values in
  which one of these two is above 9 writes that value with at least two
  characters, so the string has more than 18 characters.
\<close>

theorem SE_validation_number_length:
  "(0 \<le> v_seq g \<and> v_seq g < 2 ^ 24 \<and> 0 \<le> v_id g \<and> v_id g < 2 ^ 24 \<longrightarrow>
      (\<exists>v. SE_injected g = Inr v \<and> length v = 16 \<and>
           SE_validation_number g = Inr (SE_render v) \<and>
           (v ! 7 \<le> 9 \<and> v ! 15 \<le> 9 \<longrightarrow>
              take 2 (SE_render v) = ''00'' \<and> length (SE_render v) = 18))) \<and>
   (length w = 16 \<and> (9 < w ! 7 \<or> 9 < w ! 15) \<longrightarrow>
      (9 < w ! 7 \<longrightarrow> 2 \<le> length (str (w ! 7))) \<and>
      (9 < w ! 15 \<longrightarrow> 2 \<le> length (str (w ! 15))) \<and>
      take 2 (SE_render w) = ''00'' \<and> 18 < length (SE_render w))"
proof (intro conjI impI)
  assume "0 \<le> v_seq g \<and> v_seq g < 2 ^ 24 \<and> 0 \<le> v_id g \<and> v_id g < 2 ^ 24"
  then have r: "0 \<le> v_seq g" "v_seq g < 2 ^ 24" "0 \<le> v_id g" "v_id g < 2 ^ 24" by simp_all
  let ?w = "rev (spec_vn_digits (spec_vn_c (spec_vn_b (spec_vn_a (v_seq g) (v_id g)))))"
  have inj: "SE_injected g = Inr (spec_inject ?w)"
    using r by (rule SE_injected_in_range)
  have len: "length ?w = 16" by (simp add: length_vn_digits)
  have dig: "\<forall>x \<in> set ?w. 0 \<le> x \<and> x \<le> 9"
    using vn_digits_range by simp
  have "take 2 (SE_render (spec_inject ?w)) = ''00'' \<and> length (SE_render (spec_inject ?w)) = 18"
    if "spec_inject ?w ! 7 \<le> 9 \<and> spec_inject ?w ! 15 \<le> 9"
  proof -
    from that have "\<forall>x \<in> set (spec_inject ?w). 0 \<le> x \<and> x \<le> 9"
      using len dig by (intro inject_digits) simp_all
    then show ?thesis using inject_nth(1) [OF len] SE_render_digits by blast
  qed
  moreover have "SE_validation_number g = Inr (SE_render (spec_inject ?w))"
    by (simp add: SE_validation_number_def inj and_then_def)
  ultimately show "\<exists>v. SE_injected g = Inr v \<and> length v = 16 \<and>
      SE_validation_number g = Inr (SE_render v) \<and>
      (v ! 7 \<le> 9 \<and> v ! 15 \<le> 9 \<longrightarrow> take 2 (SE_render v) = ''00'' \<and> length (SE_render v) = 18)"
    using inj inject_nth(1) [OF len] by blast
next
  assume "9 < w ! 7"
  then show "2 \<le> length (str (w ! 7))" by (rule length_str_big)
next
  assume "9 < w ! 15"
  then show "2 \<le> length (str (w ! 15))" by (rule length_str_big)
next
  assume "length w = 16 \<and> (9 < w ! 7 \<or> 9 < w ! 15)"
  then show "take 2 (SE_render w) = ''00''" using SE_render_overflow by blast
next
  assume "length w = 16 \<and> (9 < w ! 7 \<or> 9 < w ! 15)"
  then show "18 < length (SE_render w)" using SE_render_overflow by blast
qed

theorem SE_validation_number_length_witness:
  "SE_injected ((SASGame_init meters_602)\<lparr>v_seq := 1, v_id := 1\<rparr>) =
     Inr [2, 3, 0, 5, 1, 3, 5, 8, 4, 0, 7, 3, 9, 6, 1, 0] \<and>
   SE_validation_number ((SASGame_init meters_602)\<lparr>v_seq := 1, v_id := 1\<rparr>) =
     Inr (SE_render [2, 3, 0, 5, 1, 3, 5, 8, 4, 0, 7, 3, 9, 6, 1, 0]) \<and>
   length (SE_render [2, 3, 0, 5, 1, 3, 5, 8, 4, 0, 7, 3, 9, 6, 1, 0]) = 18 \<and>
   SE_render [0, 0, 0, 0, 0, 0, 0, 13, 0, 0, 0, 0, 0, 0, 0, 0] = ''0000000000130000000'' \<and>
   18 < length (SE_render [0, 0, 0, 0, 0, 0, 0, 13, 0, 0, 0, 0, 0, 0, 0, 0])"
proof -
  have r: "SE_render [0, 0, 0, 0, 0, 0, 0, 13, 0, 0, 0, 0, 0, 0, 0, 0] = ''0000000000130000000''"
    by (simp add: SE_render_def str_digits)
  show ?thesis
    using SE_validation_number_length
      [of "(SASGame_init meters_602)\<lparr>v_seq := 1, v_id := 1\<rparr>"
        "[0, 0, 0, 0, 0, 0, 0, 13, 0, 0, 0, 0, 0, 0, 0, 0]"]
    by (simp add: example_SE_injected r)
qed

end
